theory Spec2Isabelle
  imports Main "HOL-Library.Sublist"
begin

section \<open>The pay slip splitter (pay-slip-splitter.sh)\<close>

text \<open>
  The script takes one argument, the path of a PDF holding the pay slips of all employees.
  For each of seven built-in last names it extracts every page of the input in turn into
  \<^verbatim>\<open>temp.pdf\<close>, greps the text of that page for the name, and collects the numbers of the
  pages that match; when at least one page matched, it asks pdftk to write these pages to
  \<^verbatim>\<open>output/<date> <full name>.pdf\<close>. At the end it removes \<^verbatim>\<open>temp.pdf\<close>.

  Strings are byte strings, as bash and grep see them; a letter with an accent is two
  bytes in UTF-8. The external tools are modelled by what they do to the files the script
  names: pdftk (page count, page extraction), pdftotext, grep, cut, seq and rm.
\<close>

subsection \<open>Text tools: grep and cut\<close>

text \<open>
  \<^verbatim>\<open>tolower\<close> of the C/POSIX locale: every byte is a character and the ASCII letters are
  the only letters. This is the case folding of \<^verbatim>\<open>grep -i\<close> under \<^verbatim>\<open>LC_ALL=C\<close>. In a UTF-8
  locale grep folds characters, not bytes, and a few letters beyond ASCII then count as
  case variants of ASCII letters; that folding is not modelled.
\<close>

definition posix_tolower :: "char \<Rightarrow> char" where
  "posix_tolower c =
     (let n = (of_char c :: nat) in if 65 \<le> n \<and> n \<le> 90 then char_of (n + 32) else c)"

text \<open>
  The lines of a text: a newline (byte 10) ends a line, a last line need not be ended,
  and the empty text has no line.
\<close>

function split_lines :: "string \<Rightarrow> string list" where
  "split_lines [] = []"
| "split_lines (c # cs) =
     takeWhile (\<lambda>x. x \<noteq> CHR 0x0A) (c # cs) #
       split_lines (drop 1 (dropWhile (\<lambda>x. x \<noteq> CHR 0x0A) (c # cs)))"
  by pat_completeness auto
termination
proof (relation "measure length")
  show "wf (measure length)" by simp
next
  fix c :: char and cs :: string
  have "length (dropWhile (\<lambda>x. x \<noteq> CHR 0x0A) (c # cs)) \<le> length (c # cs)"
    by (rule length_dropWhile_le)
  then show "(drop 1 (dropWhile (\<lambda>x. x \<noteq> CHR 0x0A) (c # cs)), c # cs) \<in> measure length"
    by (cases "dropWhile (\<lambda>x. x \<noteq> CHR 0x0A) (c # cs)") auto
qed

text \<open>
  \<^verbatim>\<open>grep -qi "$name"\<close> on a text, in the C/POSIX locale: success iff some line of the text
  holds the pattern, letter case ignored. The pattern is a regular expression; every name
  the script passes is made of ASCII letters only, for which the expression is the
  literal string, and the model is of such patterns.
\<close>

definition grep_qi :: "string \<Rightarrow> string \<Rightarrow> bool" where
  "grep_qi pattern input =
     list_ex (\<lambda>line. sublist (map posix_tolower pattern) (map posix_tolower line)) (split_lines input)"

text \<open>
  \<^verbatim>\<open>cut -d ' ' -f 1\<close>: of every line, the part before the first space (the whole line when
  it has no space), each followed by a newline.
\<close>

definition cut_f1 :: "string \<Rightarrow> string" where
  "cut_f1 input =
     concat (map (\<lambda>line. takeWhile (\<lambda>c. c \<noteq> CHR 0x20) line @ [CHR 0x0A]) (split_lines input))"

text \<open>Command substitution \<^verbatim>\<open>$(...)\<close> drops the newlines at the end of the output.\<close>

definition strip_trailing_newlines :: "string \<Rightarrow> string" where
  "strip_trailing_newlines s = rev (dropWhile (\<lambda>c. c = CHR 0x0A) (rev s))"

text \<open>
  \<^verbatim>\<open>date=$(cut -d ' ' -f 1 <<< "$input_file")\<close>: the here-string feeds the path followed
  by a newline.
\<close>

definition date_of :: "string \<Rightarrow> string" where
  "date_of input_file = strip_trailing_newlines (cut_f1 (input_file @ [CHR 0x0A]))"

subsection \<open>The built-in employee lists\<close>

definition full_names :: "string list" where
  "full_names =
     [''Bernier Antoine'', ''Feltin Cl'' @ [CHR 0xC3, CHR 0xA9] @ ''ment'', ''Madura Quentin'',
      ''Andres Alice'', ''Legeron Camille'', ''Bellec Maxime'', ''Auge Marc-Antoine'']"

definition names :: "string list" where
  "names = [''Bernier'', ''Feltin'', ''Madura'', ''Andres'', ''Legeron'', ''Bellec'', ''Auge'']"

subsection \<open>The files and pdftk\<close>

text \<open>
  What a run finds when it starts: the input PDF as the text of each of its pages
  (\<open>None\<close> when pdftk cannot read the path given), the text of the single page of a
  \<^verbatim>\<open>temp.pdf\<close> left in the working directory (\<open>None\<close> when there is none), the directories
  that exist, and whether the network is reachable. The input is a file other than
  \<^verbatim>\<open>temp.pdf\<close> and than the output files, the working directory can be written to,
  pdftk replaces an existing file without asking, and the tools run in the C/POSIX
  locale (the script sets none).
\<close>

record world =
  input_pdf :: "string list option"
  stale_temp :: "string option"
  is_dir :: "string \<Rightarrow> bool"
  network_up :: bool

text \<open>What the loops change: \<^verbatim>\<open>temp.pdf\<close>, and the output files written, in order, each
  with the page numbers of the input it holds.\<close>

record run_state =
  temp :: "string option"
  written :: "(string \<times> nat list) list"

record outcome =
  final_temp :: "string option"
  files_written :: "(string \<times> nat list) list"
  exit_status :: nat

text \<open>
  \<^verbatim>\<open>seq 1 $(pdftk "$input_file" dump_data | grep NumberOfPages | awk '{print $2}')\<close>:
  the page numbers from 1 to the page count. When pdftk cannot read the input the
  substitution is empty and \<^verbatim>\<open>seq 1\<close> prints 1.
\<close>

definition page_numbers :: "string list option \<Rightarrow> nat list" where
  "page_numbers pdf = (case pdf of None \<Rightarrow> [1] | Some pages \<Rightarrow> [1..<Suc (length pages)])"

text \<open>
  \<^verbatim>\<open>pdftk "$input_file" cat $page output $temp_file\<close>: \<^verbatim>\<open>temp.pdf\<close> becomes the one page
  asked for; on an error (unreadable input, no such page) pdftk creates no output and
  \<^verbatim>\<open>temp.pdf\<close> stays as it was.
\<close>

definition pdftk_cat_page :: "string list option \<Rightarrow> nat \<Rightarrow> string option \<Rightarrow> string option" where
  "pdftk_cat_page pdf page tmp =
     (case pdf of
        None \<Rightarrow> tmp
      | Some pages \<Rightarrow> if 1 \<le> page \<and> page \<le> length pages then Some (pages ! (page - 1)) else tmp)"

text \<open>\<^verbatim>\<open>pdftotext $temp_file -\<close>: the text of \<^verbatim>\<open>temp.pdf\<close>, nothing when the file is missing.\<close>

definition pdftotext :: "string option \<Rightarrow> string" where
  "pdftotext tmp = (case tmp of None \<Rightarrow> [] | Some t \<Rightarrow> t)"

text \<open>The directories a path goes through: its prefixes that end before a slash.\<close>

fun dir_prefixes :: "string \<Rightarrow> string list" where
  "dir_prefixes [] = []"
| "dir_prefixes (c # cs) =
     (if c = CHR ''/'' then [[]] else []) @ map ((#) c) (dir_prefixes cs)"

text \<open>
  \<^verbatim>\<open>pdftk "$input_file" cat ${pages[@]} output "output/..."\<close> writes the file iff the input
  is readable, has the pages asked for, and every directory on the way to the output
  file exists: pdftk creates no directory.
\<close>

definition pdftk_can_write :: "world \<Rightarrow> nat list \<Rightarrow> string \<Rightarrow> bool" where
  "pdftk_can_write w pages path =
     (case input_pdf w of
        None \<Rightarrow> False
      | Some ps \<Rightarrow>
          list_all (\<lambda>p. 1 \<le> p \<and> p \<le> length ps) pages \<and> list_all (is_dir w) (dir_prefixes path))"

subsection \<open>The loops\<close>

text \<open>The inner loop, lines 34 to 45: \<open>pages\<close> grows at its end by each page that matches.\<close>

fun find_pages ::
  "string list option \<Rightarrow> string \<Rightarrow> nat list \<Rightarrow> string option \<Rightarrow> nat list \<Rightarrow> string option \<times> nat list"
where
  "find_pages pdf name [] tmp pages = (tmp, pages)"
| "find_pages pdf name (page # rest) tmp pages =
     (let tmp' = pdftk_cat_page pdf page tmp
      in find_pages pdf name rest tmp'
           (if grep_qi name (pdftotext tmp') then pages @ [page] else pages))"

definition output_path :: "string \<Rightarrow> string \<Rightarrow> string" where
  "output_path date full_name = ''output/'' @ date @ '' '' @ full_name @ ''.pdf''"

text \<open>The outer loop, lines 25 to 51, over the indices of \<open>names\<close>.\<close>

fun split_names :: "world \<Rightarrow> string \<Rightarrow> nat list \<Rightarrow> run_state \<Rightarrow> run_state" where
  "split_names w date [] s = s"
| "split_names w date (i # rest) s =
     (let name = names ! i;
          full_name = full_names ! i;
          (tmp, pages) = find_pages (input_pdf w) name (page_numbers (input_pdf w)) (temp s) [];
          path = output_path date full_name;
          s' = s\<lparr>temp := tmp\<rparr>
      in split_names w date rest
           (if pages \<noteq> [] \<and> pdftk_can_write w pages path
            then s'\<lparr>written := written s' @ [(path, pages)]\<rparr>
            else s'))"

text \<open>\<^verbatim>\<open>rm $temp_file\<close>, with its exit status: 1 when there is no \<^verbatim>\<open>temp.pdf\<close> to remove.\<close>

definition rm_temp :: "run_state \<Rightarrow> run_state \<times> nat" where
  "rm_temp s = (s\<lparr>temp := None\<rparr>, if temp s = None then 1 else 0)"

text \<open>
  The whole script. Without an argument it stops at once with status 1, before it has
  touched any file. Otherwise no failing command stops it (there is no \<^verbatim>\<open>set -e\<close>), and
  its status is that of its last command, the \<^verbatim>\<open>rm\<close>.
\<close>

definition run :: "string \<Rightarrow> world \<Rightarrow> outcome" where
  "run input_file w =
     (if input_file = []
      then \<lparr>final_temp = stale_temp w, files_written = [], exit_status = 1\<rparr>
      else
        let s = split_names w (date_of input_file) [0..<length names]
                  \<lparr>temp = stale_temp w, written = []\<rparr>;
            (s', status) = rm_temp s
        in \<lparr>final_temp = temp s', files_written = written s', exit_status = status\<rparr>)"

subsection \<open>Notions the properties are stated with\<close>

text \<open>The numbers of the pages of a document whose text holds a name, in page order.\<close>

definition matching_pages :: "string list \<Rightarrow> string \<Rightarrow> nat list" where
  "matching_pages ps name = filter (\<lambda>p. grep_qi name (ps ! (p - 1))) [1..<Suc (length ps)]"

text \<open>\<^verbatim>\<open>temp.pdf\<close> after one pass over the pages of a readable input: its last page.\<close>

definition temp_after :: "string list \<Rightarrow> string option \<Rightarrow> string option" where
  "temp_after ps tmp = (case ps of [] \<Rightarrow> tmp | _ # _ \<Rightarrow> Some (last ps))"

text \<open>The employees, by index, for whom a run on a readable input writes a file.\<close>

definition writes_file :: "world \<Rightarrow> string list \<Rightarrow> string \<Rightarrow> nat \<Rightarrow> bool" where
  "writes_file w ps date i \<longleftrightarrow>
     matching_pages ps (names ! i) \<noteq> [] \<and>
     list_all (is_dir w) (dir_prefixes (output_path date (full_names ! i)))"

text \<open>Strings of ASCII letters, the patterns for which \<open>grep_qi\<close> is grep (in the C locale).\<close>

definition ascii_letters :: "string \<Rightarrow> bool" where
  "ascii_letters s =
     list_all (\<lambda>c. let n = (of_char c :: nat) in (65 \<le> n \<and> n \<le> 90) \<or> (97 \<le> n \<and> n \<le> 122)) s"

text \<open>
  The pattern the specification gives for a period, \<^verbatim>\<open>^\d{4}(-\d{2})?$\<close>: four digits, or
  four digits, a hyphen and two digits.
\<close>

definition is_digit :: "char \<Rightarrow> bool" where
  "is_digit c = (let n = (of_char c :: nat) in 48 \<le> n \<and> n \<le> 57)"

definition matches_period_pattern :: "string \<Rightarrow> bool" where
  "matches_period_pattern s \<longleftrightarrow>
     (length s = 4 \<and> list_all is_digit s) \<or>
     (length s = 7 \<and> list_all is_digit (take 4 s) \<and> s ! 4 = CHR ''-'' \<and>
      list_all is_digit (drop 5 s))"

section \<open>Properties\<close>

subsection \<open>grep and cut on one line\<close>

lemma posix_tolower_newline: "posix_tolower c = CHR 0x0A \<longleftrightarrow> c = CHR 0x0A"
proof
  assume h: "posix_tolower c = CHR 0x0A"
  show "c = CHR 0x0A"
  proof (cases "65 \<le> (of_char c :: nat) \<and> (of_char c :: nat) \<le> 90")
    case True
    then have "posix_tolower c = char_of ((of_char c :: nat) + 32)"
      by (simp add: posix_tolower_def Let_def)
    then have "(of_char (posix_tolower c) :: nat) = ((of_char c :: nat) + 32) mod 256"
      by simp
    with True h show ?thesis by simp
  next
    case False
    with h show ?thesis by (simp add: posix_tolower_def Let_def)
  qed
next
  assume "c = CHR 0x0A"
  then show "posix_tolower c = CHR 0x0A" by (simp add: posix_tolower_def)
qed

lemma sublist_across:
  assumes "x \<notin> set n" and "n \<noteq> []"
  shows "sublist n (a @ x # b) \<longleftrightarrow> sublist n a \<or> sublist n b"
  using assms
  by (auto simp: sublist_append sublist_Cons_right prefix_Cons suffix_def)

lemma lines_hold:
  assumes "n \<noteq> []" and "CHR 0x0A \<notin> set n"
  shows "list_ex (\<lambda>l. sublist n (map posix_tolower l)) (split_lines xs) \<longleftrightarrow> sublist n (map posix_tolower xs)"
proof (induction xs rule: split_lines.induct)
  case 1
  from assms show ?case by simp
next
  case (2 c cs)
  define l where "l = takeWhile (\<lambda>x. x \<noteq> CHR 0x0A) (c # cs)"
  define r where "r = dropWhile (\<lambda>x. x \<noteq> CHR 0x0A) (c # cs)"
  have whole: "c # cs = l @ r"
    unfolding l_def r_def by (rule takeWhile_dropWhile_id [symmetric])
  have lines: "split_lines (c # cs) = l # split_lines (drop 1 r)"
    unfolding l_def r_def by (rule split_lines.simps)
  show ?case
  proof (cases r)
    case Nil
    with whole have "l = c # cs" by simp
    with Nil lines assms show ?thesis by simp
  next
    case (Cons y r')
    have "\<not> (hd r \<noteq> CHR 0x0A)"
      unfolding r_def by (rule hd_dropWhile) (use Cons r_def in simp)
    with Cons have y: "y = CHR 0x0A" by simp
    have "posix_tolower y = CHR 0x0A" using y by (simp add: posix_tolower_newline)
    with whole Cons have "map posix_tolower (c # cs) = map posix_tolower l @ CHR 0x0A # map posix_tolower r'"
      by simp
    then have "sublist n (map posix_tolower (c # cs)) \<longleftrightarrow>
        sublist n (map posix_tolower l) \<or> sublist n (map posix_tolower r')"
      using sublist_across [OF assms(2,1)] by simp
    moreover have "list_ex (\<lambda>l. sublist n (map posix_tolower l)) (split_lines r') \<longleftrightarrow>
        sublist n (map posix_tolower r')"
      using "2.IH" Cons r_def by simp
    ultimately show ?thesis using lines Cons by simp
  qed
qed

lemma grep_qi_sublist:
  assumes "pattern \<noteq> []" and "CHR 0x0A \<notin> set pattern"
  shows "grep_qi pattern input \<longleftrightarrow> sublist (map posix_tolower pattern) (map posix_tolower input)"
proof -
  have "map posix_tolower pattern \<noteq> []" using assms(1) by simp
  moreover have "CHR 0x0A \<notin> set (map posix_tolower pattern)"
  proof
    assume "CHR 0x0A \<in> set (map posix_tolower pattern)"
    then obtain c where "c \<in> set pattern" and "posix_tolower c = CHR 0x0A" by auto
    with assms(2) show False by (simp add: posix_tolower_newline)
  qed
  ultimately show ?thesis
    unfolding grep_qi_def by (rule lines_hold)
qed

lemma split_lines_one_line:
  assumes "CHR 0x0A \<notin> set xs"
  shows "split_lines (xs @ [CHR 0x0A]) = [xs]"
proof -
  have a: "\<And>x. x \<in> set xs \<Longrightarrow> x \<noteq> CHR 0x0A" using assms by auto
  have t: "takeWhile (\<lambda>x. x \<noteq> CHR 0x0A) (xs @ [CHR 0x0A]) = xs"
    using a by (simp add: takeWhile_append2)
  have d: "dropWhile (\<lambda>x. x \<noteq> CHR 0x0A) (xs @ [CHR 0x0A]) = [CHR 0x0A]"
    using a by (simp add: dropWhile_append2)
  obtain c cs where cs: "xs @ [CHR 0x0A] = c # cs" by (cases xs) auto
  have "split_lines (c # cs) =
      takeWhile (\<lambda>x. x \<noteq> CHR 0x0A) (c # cs) #
        split_lines (drop 1 (dropWhile (\<lambda>x. x \<noteq> CHR 0x0A) (c # cs)))"
    by (rule split_lines.simps)
  then show ?thesis unfolding cs [symmetric] t d by simp
qed

lemma date_of_one_line:
  assumes "CHR 0x0A \<notin> set input_file"
  shows "date_of input_file = takeWhile (\<lambda>c. c \<noteq> CHR 0x20) input_file"
proof -
  define t where "t = takeWhile (\<lambda>c. c \<noteq> CHR 0x20) input_file"
  have nt: "CHR 0x0A \<notin> set t" using assms unfolding t_def by (auto dest: set_takeWhileD)
  have "dropWhile (\<lambda>c. c = CHR 0x0A) (rev t) = rev t"
  proof (cases "rev t")
    case Nil
    then show ?thesis by simp
  next
    case (Cons a l)
    then have "a \<in> set t" by (metis list.set_intros(1) set_rev)
    with nt have "a \<noteq> CHR 0x0A" by auto
    with Cons show ?thesis by simp
  qed
  then show ?thesis
    using assms by (simp add: date_of_def cut_f1_def strip_trailing_newlines_def split_lines_one_line t_def)
qed

subsection \<open>What the loops compute\<close>

lemma find_pages_readable:
  assumes "\<forall>p\<in>set pgs. 1 \<le> p \<and> p \<le> length ps"
  shows "find_pages (Some ps) name pgs tmp acc =
           (if pgs = [] then tmp else Some (ps ! (last pgs - 1)),
            acc @ filter (\<lambda>p. grep_qi name (ps ! (p - 1))) pgs)"
  using assms
proof (induction pgs arbitrary: tmp acc)
  case Nil
  then show ?case by simp
next
  case (Cons p pgs)
  then show ?case by (simp add: pdftk_cat_page_def pdftotext_def)
qed

lemma find_pages_unreadable:
  "find_pages None name pgs tmp acc =
     (tmp, acc @ filter (\<lambda>p. grep_qi name (pdftotext tmp)) pgs)"
  by (induction pgs arbitrary: acc) (simp_all add: pdftk_cat_page_def)

lemma temp_after_twice: "temp_after ps (temp_after ps tmp) = temp_after ps tmp"
  by (cases ps) (simp_all add: temp_after_def)

lemma find_pages_input:
  "find_pages (Some ps) name (page_numbers (Some ps)) tmp [] =
     (temp_after ps tmp, matching_pages ps name)"
proof (cases "ps = []")
  case True
  then show ?thesis by (simp add: page_numbers_def matching_pages_def temp_after_def)
next
  case False
  have "\<forall>p\<in>set [1..<Suc (length ps)]. 1 \<le> p \<and> p \<le> length ps" by auto
  from find_pages_readable [OF this, of name tmp "[]"]
  have "find_pages (Some ps) name [1..<Suc (length ps)] tmp [] =
      (Some (ps ! (length ps - 1)), matching_pages ps name)"
    using False by (simp add: matching_pages_def last_upt del: upt_Suc)
  moreover have "temp_after ps tmp = Some (ps ! (length ps - 1))"
    using False by (cases ps) (simp_all add: temp_after_def last_conv_nth)
  ultimately show ?thesis by (simp add: page_numbers_def)
qed

lemma matching_pages_in_range:
  "list_all (\<lambda>p. 1 \<le> p \<and> p \<le> length ps) (matching_pages ps name)"
  by (auto simp: matching_pages_def list_all_iff)

lemma split_names_readable:
  assumes "input_pdf w = Some ps"
  shows "split_names w date idx s =
     \<lparr>temp = (if idx = [] then temp s else temp_after ps (temp s)),
      written = written s @
        map (\<lambda>i. (output_path date (full_names ! i), matching_pages ps (names ! i)))
          (filter (writes_file w ps date) idx)\<rparr>"
proof (induction idx arbitrary: s)
  case Nil
  then show ?case by simp
next
  case (Cons i idx)
  have can: "pdftk_can_write w (matching_pages ps (names ! i)) path \<longleftrightarrow>
      list_all (is_dir w) (dir_prefixes path)" for path
    using matching_pages_in_range [of ps "names ! i"] by (simp add: pdftk_can_write_def assms)
  show ?case
    by (simp add: Cons.IH assms find_pages_input can writes_file_def temp_after_twice Let_def)
qed

lemma split_names_unreadable:
  assumes "input_pdf w = None"
  shows "split_names w date idx s = s"
proof (induction idx arbitrary: s)
  case Nil
  then show ?case by simp
next
  case (Cons i idx)
  show ?case
    by (simp add: Cons.IH assms find_pages_unreadable pdftk_can_write_def Let_def)
qed

lemma length_names: "length names = 7" by (simp add: names_def)
lemma length_full_names: "length full_names = 7" by (simp add: full_names_def)


lemma run_readable:
  assumes "input_file \<noteq> []" and "input_pdf w = Some ps"
  shows "run input_file w =
     \<lparr>final_temp = None,
      files_written =
        map (\<lambda>i. (output_path (date_of input_file) (full_names ! i), matching_pages ps (names ! i)))
          (filter (writes_file w ps (date_of input_file)) [0..<length names]),
      exit_status = (if temp_after ps (stale_temp w) = None then 1 else 0)\<rparr>"
proof -
  have "[0..<length names] \<noteq> []" by (simp add: length_names)
  then show ?thesis
    using assms(1) by (simp add: run_def rm_temp_def split_names_readable [OF assms(2)] Let_def)
qed

lemma run_unreadable:
  assumes "input_file \<noteq> []" and "input_pdf w = None"
  shows "run input_file w =
     \<lparr>final_temp = None, files_written = [],
      exit_status = (if stale_temp w = None then 1 else 0)\<rparr>"
  using assms(1) by (simp add: run_def rm_temp_def split_names_unreadable [OF assms(2)] Let_def)






subsection \<open>The number of pages written\<close>









subsection \<open>Matching of names\<close>

lemma ascii_letters_no_newline: "ascii_letters s \<Longrightarrow> CHR 0x0A \<notin> set s"
  by (auto simp: ascii_letters_def list_all_iff)

text \<open>
  Claim C3, as amended. Under the C/POSIX locale (\<^verbatim>\<open>LC_ALL=C\<close>), matching ignores the case
  of ASCII letters and nothing else: for a non-empty needle of ASCII letters, grep
  succeeds iff the needle, its ASCII letters lower-cased, is a substring of the haystack,
  its ASCII letters lower-cased. Accents are not removed.
\<close>

theorem grep_ignores_case_only:
  assumes "needle \<noteq> []" and "ascii_letters needle"
  shows "grep_qi needle haystack \<longleftrightarrow> sublist (map posix_tolower needle) (map posix_tolower haystack)"
  using assms(1) ascii_letters_no_newline [OF assms(2)] by (rule grep_qi_sublist)

theorem grep_ignores_case_only_witness:
  "''Legeron'' \<noteq> [] \<and> ascii_letters ''Legeron'' \<and>
   grep_qi ''Legeron'' ''Camille LEGERON'' \<and>
   sublist (map posix_tolower ''Legeron'') (map posix_tolower ''Camille LEGERON'')"
proof -
  have h1: "''Legeron'' \<noteq> []" by simp
  have h2: "ascii_letters ''Legeron''" by code_simp
  have g: "grep_qi ''Legeron'' ''Camille LEGERON''" by code_simp
  with grep_ignores_case_only [OF h1 h2, of "''Camille LEGERON''"]
  have "sublist (map posix_tolower ''Legeron'') (map posix_tolower ''Camille LEGERON'')" by blast
  with h1 h2 g show ?thesis by (intro conjI)
qed

text \<open>The haystack is L, e with an acute accent (two bytes in UTF-8), geron.\<close>

theorem grep_accent_counterexample:
  "\<not> grep_qi ''legeron'' (''L'' @ [CHR 0xC3, CHR 0xA9] @ ''geron'')"
  by code_simp

subsection \<open>The period\<close>

text \<open>
  Claim C4, as amended. The period comes from the argument alone: it is the part of the
  argument before its first space, and the whole argument when it has no space (the
  argument being one line). No pattern is tried and the result is never absent.
\<close>

theorem period_from_argument:
  assumes "CHR 0x0A \<notin> set period" and "CHR 0x20 \<notin> set period" and "CHR 0x0A \<notin> set rest"
  shows "date_of (period @ '' '' @ rest) = period \<and> date_of period = period"
proof -
  have all: "\<And>c. c \<in> set period \<Longrightarrow> c \<noteq> CHR 0x20" using assms(2) by auto
  have "CHR 0x0A \<notin> set (period @ '' '' @ rest)" using assms(1,3) by simp
  then have "date_of (period @ '' '' @ rest) =
      takeWhile (\<lambda>c. c \<noteq> CHR 0x20) (period @ '' '' @ rest)"
    by (rule date_of_one_line)
  also have "\<dots> = period" using all by (simp add: takeWhile_append2)
  finally have first: "date_of (period @ '' '' @ rest) = period" .
  have "date_of period = takeWhile (\<lambda>c. c \<noteq> CHR 0x20) period"
    using assms(1) by (rule date_of_one_line)
  also have "\<dots> = period" using all by (simp add: takeWhile_eq_all_conv)
  finally show ?thesis using first by simp
qed

theorem period_from_argument_witness:
  "CHR 0x0A \<notin> set ''2025-09'' \<and> CHR 0x20 \<notin> set ''2025-09'' \<and> CHR 0x0A \<notin> set ''BP.pdf'' \<and>
   date_of (''2025-09'' @ '' '' @ ''BP.pdf'') = ''2025-09'' \<and> date_of ''2025-09'' = ''2025-09''"
proof -
  have h1: "CHR 0x0A \<notin> set ''2025-09''" by simp
  have h2: "CHR 0x20 \<notin> set ''2025-09''" by simp
  have h3: "CHR 0x0A \<notin> set ''BP.pdf''" by simp
  from period_from_argument [OF h1 h2 h3] h1 h2 h3 show ?thesis by (intro conjI) blast+
qed

theorem period_from_filename_counterexample:
  "date_of ''BP_2025-09.pdf'' = ''BP_2025-09.pdf'' \<and> date_of ''BP_2025-09.pdf'' \<noteq> ''2025-09''"
  by code_simp

subsection \<open>The names of the files written\<close>

lemma files_written_names:
  assumes "(name, pages) \<in> set (files_written (run input_file w))"
  shows "\<exists>i<length names. name = output_path (date_of input_file) (full_names ! i)"
proof (cases "input_file = []")
  case True
  with assms show ?thesis by (simp add: run_def)
next
  case False
  show ?thesis
  proof (cases "input_pdf w")
    case None
    from assms show ?thesis by (simp add: run_unreadable [OF False None])
  next
    case (Some ps)
    from assms show ?thesis by (auto simp: run_readable [OF False Some])
  qed
qed

lemma period_pattern_one_word:
  assumes "matches_period_pattern s"
  shows "CHR 0x0A \<notin> set s \<and> CHR 0x20 \<notin> set s"
proof -
  have digit: "c \<noteq> CHR 0x0A \<and> c \<noteq> CHR 0x20" if "is_digit c" for c
    using that by (auto simp: is_digit_def)
  from assms consider "length s = 4" and "list_all is_digit s"
    | "length s = 7" and "list_all is_digit (take 4 s)" and "s ! 4 = CHR ''-''"
      and "list_all is_digit (drop 5 s)"
    unfolding matches_period_pattern_def by blast
  then show ?thesis
  proof cases
    case 1
    then show ?thesis using digit by (auto simp: list_all_iff)
  next
    case 2
    then have "4 < length s" by simp
    then have "s = take 4 s @ s ! 4 # drop (Suc 4) s" by (rule id_take_nth_drop)
    then have "set s = set (take 4 s @ s ! 4 # drop (Suc 4) s)" by (rule arg_cong)
    moreover have "Suc 4 = 5" by simp
    ultimately have "set s = insert (s ! 4) (set (take 4 s) \<union> set (drop 5 s))"
      by simp
    with 2 digit show ?thesis by (auto simp: list_all_iff)
  qed
qed

lemma first_field_is_period:
  assumes "matches_period_pattern period"
  shows "takeWhile (\<lambda>c. c \<noteq> CHR 0x20) period = period"
    and "takeWhile (\<lambda>c. c \<noteq> CHR 0x20) (period @ '' '' @ rest) = period"
proof -
  from period_pattern_one_word [OF assms]
  have sp: "\<And>c. c \<in> set period \<Longrightarrow> c \<noteq> CHR 0x20" by auto
  then show "takeWhile (\<lambda>c. c \<noteq> CHR 0x20) period = period"
    by (simp add: takeWhile_eq_all_conv)
  from sp show "takeWhile (\<lambda>c. c \<noteq> CHR 0x20) (period @ '' '' @ rest) = period"
    by (simp add: takeWhile_append2)
qed

lemma argument_after_first_field:
  "input_file = takeWhile (\<lambda>c. c \<noteq> CHR 0x20) input_file \<or>
   (\<exists>rest. input_file = takeWhile (\<lambda>c. c \<noteq> CHR 0x20) input_file @ '' '' @ rest)"
proof (cases "dropWhile (\<lambda>c. c \<noteq> CHR 0x20) input_file")
  case Nil
  then have "takeWhile (\<lambda>c. c \<noteq> CHR 0x20) input_file = input_file"
    by (metis append_Nil2 takeWhile_dropWhile_id)
  then have "input_file = takeWhile (\<lambda>c. c \<noteq> CHR 0x20) input_file" by (rule sym)
  then show ?thesis by (rule disjI1)
next
  case (Cons c rest)
  have "\<not> (hd (dropWhile (\<lambda>c. c \<noteq> CHR 0x20) input_file) \<noteq> CHR 0x20)"
    by (rule hd_dropWhile) (use Cons in simp)
  with Cons have "c = CHR 0x20" by simp
  with Cons have "takeWhile (\<lambda>c. c \<noteq> CHR 0x20) input_file @ '' '' @ rest = input_file"
    by (metis append_Cons append_Nil takeWhile_dropWhile_id)
  then show ?thesis by metis
qed

text \<open>
  Claim C9, as amended. For a one-line argument the token at the start of every output
  file name is the first field of the argument, taken as it is. It matches the pattern of
  a period iff the argument is such a period, alone or followed by a space and a rest.
\<close>

theorem period_token_is_first_field:
  assumes "CHR 0x0A \<notin> set input_file"
    and "(name, pages) \<in> set (files_written (run input_file w))"
  shows "\<exists>token full. name = ''output/'' @ token @ '' '' @ full @ ''.pdf'' \<and>
     full \<in> set full_names \<and>
     token = takeWhile (\<lambda>c. c \<noteq> CHR 0x20) input_file \<and>
     (matches_period_pattern token \<longleftrightarrow>
        (\<exists>period rest. matches_period_pattern period \<and>
           (input_file = period \<or> input_file = period @ '' '' @ rest)))"
proof -
  define token where "token = takeWhile (\<lambda>c. c \<noteq> CHR 0x20) input_file"
  from files_written_names [OF assms(2)] obtain i where i: "i < length names"
    and "name = output_path (date_of input_file) (full_names ! i)"
    by blast
  then have name: "name = ''output/'' @ token @ '' '' @ full_names ! i @ ''.pdf''"
    by (simp add: output_path_def date_of_one_line [OF assms(1)] token_def)
  have full: "full_names ! i \<in> set full_names"
    using i by (simp add: length_names length_full_names)
  have "matches_period_pattern token \<longleftrightarrow>
      (\<exists>period rest. matches_period_pattern period \<and>
         (input_file = period \<or> input_file = period @ '' '' @ rest))"
  proof
    assume "matches_period_pattern token"
    with argument_after_first_field [of input_file]
    show "\<exists>period rest. matches_period_pattern period \<and>
         (input_file = period \<or> input_file = period @ '' '' @ rest)"
      unfolding token_def by metis
  next
    assume "\<exists>period rest. matches_period_pattern period \<and>
         (input_file = period \<or> input_file = period @ '' '' @ rest)"
    then obtain period rest where p: "matches_period_pattern period"
      and "input_file = period \<or> input_file = period @ '' '' @ rest"
      by blast
    with first_field_is_period [OF p] have "token = period"
      unfolding token_def by metis
    with p show "matches_period_pattern token" by simp
  qed
  with name full show ?thesis unfolding token_def by blast
qed

theorem period_token_is_first_field_witness:
  "CHR 0x0A \<notin> set ''2023-07 BP.pdf'' \<and>
   files_written (run ''2023-07 BP.pdf''
      \<lparr>input_pdf = Some [''MADURA Quentin''], stale_temp = None, is_dir = (=) ''output'',
       network_up = True\<rparr>) = [(''output/2023-07 Madura Quentin.pdf'', [1])] \<and>
   (\<exists>token full. ''output/2023-07 Madura Quentin.pdf'' = ''output/'' @ token @ '' '' @ full @ ''.pdf'' \<and>
     full \<in> set full_names \<and> token = ''2023-07'' \<and> matches_period_pattern token)"
proof -
  let ?w = "\<lparr>input_pdf = Some [''MADURA Quentin''], stale_temp = None, is_dir = (=) ''output'',
       network_up = True\<rparr>"
  have h1: "CHR 0x0A \<notin> set ''2023-07 BP.pdf''" by simp
  have files: "files_written (run ''2023-07 BP.pdf'' ?w) =
      [(''output/2023-07 Madura Quentin.pdf'', [1])]"
    by code_simp
  then have h2: "(''output/2023-07 Madura Quentin.pdf'', [1]) \<in>
      set (files_written (run ''2023-07 BP.pdf'' ?w))"
    by simp
  have field: "takeWhile (\<lambda>c. c \<noteq> CHR 0x20) ''2023-07 BP.pdf'' = ''2023-07''" by simp
  have period: "matches_period_pattern ''2023-07''" by code_simp
  from period_token_is_first_field [OF h1 h2] obtain token full
    where "''output/2023-07 Madura Quentin.pdf'' = ''output/'' @ token @ '' '' @ full @ ''.pdf''"
      and "full \<in> set full_names"
      and "token = takeWhile (\<lambda>c. c \<noteq> CHR 0x20) ''2023-07 BP.pdf''"
    by blast
  with field period
  have "\<exists>token full. ''output/2023-07 Madura Quentin.pdf'' = ''output/'' @ token @ '' '' @ full @ ''.pdf'' \<and>
     full \<in> set full_names \<and> token = ''2023-07'' \<and> matches_period_pattern token"
    by metis
  with h1 files show ?thesis by (intro conjI)
qed


theorem period_token_counterexample:
  "files_written (run ''BP.pdf''
      \<lparr>input_pdf = Some [''MADURA Quentin''], stale_temp = None, is_dir = (=) ''output'',
       network_up = True\<rparr>) = [(''output/'' @ ''BP.pdf'' @ '' '' @ ''Madura Quentin'' @ ''.pdf'', [1])] \<and>
   \<not> matches_period_pattern ''BP.pdf''"
  by code_simp

text \<open>
  Claim C10, as amended. For an argument without a newline, every file written is named
  \<^verbatim>\<open>output/\<close>, the part of the argument before its first space, a space, a full name and
  \<^verbatim>\<open>.pdf\<close>; when the argument has no space this part is the whole argument, directories
  included.
\<close>

theorem output_name_prefix:
  assumes "CHR 0x0A \<notin> set input_file"
    and "(name, pages) \<in> set (files_written (run input_file w))"
  shows "\<exists>full\<in>set full_names.
     name = ''output/'' @ takeWhile (\<lambda>c. c \<noteq> CHR 0x20) input_file @ '' '' @ full @ ''.pdf'' \<and>
     (CHR 0x20 \<notin> set input_file \<longrightarrow> name = ''output/'' @ input_file @ '' '' @ full @ ''.pdf'')"
proof -
  from files_written_names [OF assms(2)] obtain i where i: "i < length names"
    and "name = output_path (date_of input_file) (full_names ! i)"
    by blast
  then have name: "name = ''output/'' @ takeWhile (\<lambda>c. c \<noteq> CHR 0x20) input_file @ '' '' @
      full_names ! i @ ''.pdf''"
    by (simp add: output_path_def date_of_one_line [OF assms(1)])
  have "takeWhile (\<lambda>c. c \<noteq> CHR 0x20) input_file = input_file" if "CHR 0x20 \<notin> set input_file"
    using that by (auto simp: takeWhile_eq_all_conv)
  with name have "CHR 0x20 \<notin> set input_file \<longrightarrow>
      name = ''output/'' @ input_file @ '' '' @ full_names ! i @ ''.pdf''"
    by simp
  moreover have "full_names ! i \<in> set full_names"
    using i by (simp add: length_names length_full_names)
  ultimately show ?thesis using name by blast
qed

theorem output_name_prefix_witness:
  "CHR 0x0A \<notin> set ''input/BP.pdf'' \<and> CHR 0x20 \<notin> set ''input/BP.pdf'' \<and>
   files_written (run ''input/BP.pdf''
      \<lparr>input_pdf = Some [''AUGE''], stale_temp = None,
       is_dir = (\<lambda>d. d = ''output'' \<or> d = ''output/input''), network_up = True\<rparr>) =
     [(''output/input/BP.pdf Auge Marc-Antoine.pdf'', [1])] \<and>
   (\<exists>full. full \<in> set full_names \<and>
     ''output/input/BP.pdf Auge Marc-Antoine.pdf'' =
       ''output/'' @ takeWhile (\<lambda>c. c \<noteq> CHR 0x20) ''input/BP.pdf'' @ '' '' @ full @ ''.pdf'' \<and>
     ''output/input/BP.pdf Auge Marc-Antoine.pdf'' =
       ''output/'' @ ''input/BP.pdf'' @ '' '' @ full @ ''.pdf'')"
proof -
  let ?w = "\<lparr>input_pdf = Some [''AUGE''], stale_temp = None,
       is_dir = (\<lambda>d. d = ''output'' \<or> d = ''output/input''), network_up = True\<rparr>"
  have h1: "CHR 0x0A \<notin> set ''input/BP.pdf''" by simp
  have sp: "CHR 0x20 \<notin> set ''input/BP.pdf''" by simp
  have files: "files_written (run ''input/BP.pdf'' ?w) =
      [(''output/input/BP.pdf Auge Marc-Antoine.pdf'', [1])]"
    by code_simp
  then have h2: "(''output/input/BP.pdf Auge Marc-Antoine.pdf'', [1]) \<in>
      set (files_written (run ''input/BP.pdf'' ?w))"
    by simp
  from output_name_prefix [OF h1 h2] sp
  have "\<exists>full. full \<in> set full_names \<and>
     ''output/input/BP.pdf Auge Marc-Antoine.pdf'' =
       ''output/'' @ takeWhile (\<lambda>c. c \<noteq> CHR 0x20) ''input/BP.pdf'' @ '' '' @ full @ ''.pdf'' \<and>
     ''output/input/BP.pdf Auge Marc-Antoine.pdf'' =
       ''output/'' @ ''input/BP.pdf'' @ '' '' @ full @ ''.pdf''"
    by blast
  with h1 sp files show ?thesis by (intro conjI)
qed

text \<open>
  An argument of two lines: cut takes the first field of each line, so the prefix is not
  the part before the first space. An argument that ends in a newline and has no space:
  the prefix is not the whole argument.
\<close>

theorem output_name_prefix_counterexample:
  "files_written (run (''2023 x'' @ [CHR 0x0A] @ ''y z'')
      \<lparr>input_pdf = Some [''AUGE''], stale_temp = None, is_dir = (=) ''output'',
       network_up = True\<rparr>) =
     [(''output/'' @ ''2023'' @ [CHR 0x0A] @ ''y'' @ '' Auge Marc-Antoine.pdf'', [1])] \<and>
   takeWhile (\<lambda>c. c \<noteq> CHR 0x20) (''2023 x'' @ [CHR 0x0A] @ ''y z'') = ''2023'' \<and>
   files_written (run (''ab'' @ [CHR 0x0A])
      \<lparr>input_pdf = Some [''AUGE''], stale_temp = None, is_dir = (=) ''output'',
       network_up = True\<rparr>) =
     [(''output/'' @ ''ab'' @ '' Auge Marc-Antoine.pdf'', [1])] \<and>
   CHR 0x20 \<notin> set (''ab'' @ [CHR 0x0A])"
  by code_simp

subsection \<open>The employee lists, the network and the directories\<close>

lemma pdftk_can_write_network:
  "pdftk_can_write (w\<lparr>network_up := up\<rparr>) pages path = pdftk_can_write w pages path"
  by (simp add: pdftk_can_write_def split: option.split)

lemma split_names_network:
  "split_names (w\<lparr>network_up := up\<rparr>) date idx s = split_names w date idx s"
  by (induction idx arbitrary: s) (simp_all add: pdftk_can_write_network Let_def)

text \<open>
  Claim C5, as amended. The employee directory is the pair of lists built into the
  script, seven last names with seven full names; nothing is loaded, so no load can fail,
  and a run does the same whether or not the network is reachable.
\<close>

theorem directory_is_built_in:
  "length names = 7 \<and> length full_names = 7 \<and>
   run input_file (w\<lparr>network_up := up\<rparr>) = run input_file w"
  by (simp add: length_names length_full_names run_def rm_temp_def split_names_network)

theorem directory_is_built_in_witness:
  "run ''2023-07 BP.pdf''
     (\<lparr>input_pdf = Some [''BERNIER Antoine''], stale_temp = None, is_dir = (=) ''output'',
       network_up = True\<rparr>\<lparr>network_up := False\<rparr>) =
   run ''2023-07 BP.pdf''
     \<lparr>input_pdf = Some [''BERNIER Antoine''], stale_temp = None, is_dir = (=) ''output'',
      network_up = True\<rparr>"
  using directory_is_built_in
    [where input_file = "''2023-07 BP.pdf''" and up = False and
      w = "\<lparr>input_pdf = Some [''BERNIER Antoine''], stale_temp = None, is_dir = (=) ''output'',
        network_up = True\<rparr>"]
  by (rule conjunct2 [OF conjunct2])

text \<open>With the network down the run writes its file all the same.\<close>

theorem directory_load_counterexample:
  "files_written (run ''2023-07 BP.pdf''
     \<lparr>input_pdf = Some [''BERNIER Antoine''], stale_temp = None, is_dir = (=) ''output'',
      network_up = False\<rparr>) = [(''output/2023-07 Bernier Antoine.pdf'', [1])]"
  by code_simp

lemma output_dir_on_the_way: "''output'' \<in> set (dir_prefixes (output_path date full_name))"
  by (simp add: output_path_def)

lemma files_written_directories:
  assumes "(name, pages) \<in> set (files_written (run input_file w))"
  shows "list_all (is_dir w) (dir_prefixes name)"
proof (cases "input_file = []")
  case True
  with assms show ?thesis by (simp add: run_def)
next
  case False
  show ?thesis
  proof (cases "input_pdf w")
    case None
    from assms show ?thesis by (simp add: run_unreadable [OF False None])
  next
    case (Some ps)
    from assms show ?thesis by (auto simp: run_readable [OF False Some] writes_file_def)
  qed
qed

text \<open>
  Claim C8, as amended. The script creates no directory. A file is written only when
  every directory on the way to it exists, \<^verbatim>\<open>output\<close> first; when \<^verbatim>\<open>output\<close> is not a
  directory the run writes no file at all.
\<close>

theorem files_need_their_directories:
  "(\<not> is_dir w ''output'' \<longrightarrow> files_written (run input_file w) = []) \<and>
   (\<forall>name pages. (name, pages) \<in> set (files_written (run input_file w)) \<longrightarrow>
      list_all (is_dir w) (dir_prefixes name))"
proof (intro conjI impI allI)
  assume no_dir: "\<not> is_dir w ''output''"
  show "files_written (run input_file w) = []"
  proof (rule ccontr)
    assume "files_written (run input_file w) \<noteq> []"
    then obtain name pages where f: "(name, pages) \<in> set (files_written (run input_file w))"
      by (cases "files_written (run input_file w)") auto
    from files_written_names [OF f] obtain i
      where "name = output_path (date_of input_file) (full_names ! i)" by blast
    then have "''output'' \<in> set (dir_prefixes name)" by (simp only: output_dir_on_the_way)
    with files_written_directories [OF f] have "is_dir w ''output''"
      by (simp add: list_all_iff)
    with no_dir show False by simp
  qed
next
  fix name pages
  assume "(name, pages) \<in> set (files_written (run input_file w))"
  then show "list_all (is_dir w) (dir_prefixes name)" by (rule files_written_directories)
qed

theorem files_need_their_directories_witness:
  "\<not> is_dir \<lparr>input_pdf = Some [''AUGE''], stale_temp = None, is_dir = (\<lambda>d. False),
      network_up = True\<rparr> ''output'' \<and>
   files_written (run ''input/BP.pdf''
     \<lparr>input_pdf = Some [''AUGE''], stale_temp = None, is_dir = (\<lambda>d. False),
      network_up = True\<rparr>) = [] \<and>
   files_written (run ''input/BP.pdf''
     \<lparr>input_pdf = Some [''AUGE''], stale_temp = None,
      is_dir = (\<lambda>d. d = ''output'' \<or> d = ''output/input''), network_up = True\<rparr>) =
     [(''output/input/BP.pdf Auge Marc-Antoine.pdf'', [1])] \<and>
   list_all (\<lambda>d. d = ''output'' \<or> d = ''output/input'')
     (dir_prefixes ''output/input/BP.pdf Auge Marc-Antoine.pdf'')"
proof -
  let ?none = "\<lparr>input_pdf = Some [''AUGE''], stale_temp = None, is_dir = (\<lambda>d. False),
      network_up = True\<rparr>"
  let ?both = "\<lparr>input_pdf = Some [''AUGE''], stale_temp = None,
      is_dir = (\<lambda>d. d = ''output'' \<or> d = ''output/input''), network_up = True\<rparr>"
  have h: "\<not> is_dir ?none ''output''" by simp
  with files_need_their_directories [where w = ?none and input_file = "''input/BP.pdf''"]
  have none: "files_written (run ''input/BP.pdf'' ?none) = []" by blast
  have files: "files_written (run ''input/BP.pdf'' ?both) =
      [(''output/input/BP.pdf Auge Marc-Antoine.pdf'', [1])]"
    by code_simp
  then have "(''output/input/BP.pdf Auge Marc-Antoine.pdf'', [1]) \<in>
      set (files_written (run ''input/BP.pdf'' ?both))"
    by simp
  with files_need_their_directories [where w = ?both and input_file = "''input/BP.pdf''"]
  have "list_all (is_dir ?both) (dir_prefixes ''output/input/BP.pdf Auge Marc-Antoine.pdf'')"
    by blast
  then have dirs: "list_all (\<lambda>d. d = ''output'' \<or> d = ''output/input'')
      (dir_prefixes ''output/input/BP.pdf Auge Marc-Antoine.pdf'')"
    by (simp only: world.simps)
  from h none files dirs show ?thesis by (intro conjI)
qed

text \<open>
  The same input gives one file when the directory exists, none when it does not, and
  none when \<^verbatim>\<open>output\<close> exists but a further directory of the path does not.
\<close>

theorem output_directory_counterexample:
  "files_written (run ''2023-07 BP.pdf''
     \<lparr>input_pdf = Some [''BERNIER Antoine''], stale_temp = None, is_dir = (=) ''output'',
      network_up = True\<rparr>) = [(''output/2023-07 Bernier Antoine.pdf'', [1])] \<and>
   files_written (run ''2023-07 BP.pdf''
     \<lparr>input_pdf = Some [''BERNIER Antoine''], stale_temp = None, is_dir = (\<lambda>d. False),
      network_up = True\<rparr>) = [] \<and>
   files_written (run ''input/BP.pdf''
     \<lparr>input_pdf = Some [''BERNIER Antoine''], stale_temp = None, is_dir = (=) ''output'',
      network_up = True\<rparr>) = []"
  by code_simp

subsection \<open>No match, and the temporary file\<close>

lemma no_match_no_pages:
  assumes "\<forall>t\<in>set ps. \<not> grep_qi name t"
  shows "matching_pages ps name = []"
proof -
  have "\<not> grep_qi name (ps ! (p - 1))" if "p \<in> set [1..<Suc (length ps)]" for p
  proof -
    from that have "ps ! (p - 1) \<in> set ps" by (auto intro: nth_mem)
    with assms show ?thesis by simp
  qed
  then show ?thesis by (simp add: matching_pages_def filter_empty_conv del: upt_Suc)
qed

text \<open>
  Claim C6. When no last name is found on any page of the input, a PDF with at least one
  page, the run writes no file and ends with status 0.
\<close>

theorem no_match_no_file_success:
  assumes "input_file \<noteq> []" and "input_pdf w = Some ps" and "ps \<noteq> []"
    and "\<forall>name\<in>set names. \<forall>t\<in>set ps. \<not> grep_qi name t"
  shows "files_written (run input_file w) = [] \<and> exit_status (run input_file w) = 0"
proof -
  have "\<not> writes_file w ps (date_of input_file) i" if "i \<in> set [0..<length names]" for i
  proof -
    from that have "names ! i \<in> set names" by simp
    with assms(4) have "matching_pages ps (names ! i) = []" by (simp add: no_match_no_pages)
    then show ?thesis by (simp add: writes_file_def)
  qed
  then have "filter (writes_file w ps (date_of input_file)) [0..<length names] = []"
    by (simp only: filter_empty_conv) blast
  moreover have "temp_after ps (stale_temp w) \<noteq> None"
    using assms(3) by (cases ps) (simp_all add: temp_after_def)
  ultimately show ?thesis by (simp add: run_readable [OF assms(1,2)])
qed

theorem no_match_no_file_success_witness:
  "''2023-07 BP.pdf'' \<noteq> [] \<and> [''Page de garde'', ''Total''] \<noteq> [] \<and>
   list_all (\<lambda>name. list_all (\<lambda>t. \<not> grep_qi name t) [''Page de garde'', ''Total'']) names \<and>
   files_written (run ''2023-07 BP.pdf''
     \<lparr>input_pdf = Some [''Page de garde'', ''Total''], stale_temp = None,
      is_dir = (=) ''output'', network_up = True\<rparr>) = [] \<and>
   exit_status (run ''2023-07 BP.pdf''
     \<lparr>input_pdf = Some [''Page de garde'', ''Total''], stale_temp = None,
      is_dir = (=) ''output'', network_up = True\<rparr>) = 0"
proof -
  let ?ps = "[''Page de garde'', ''Total'']"
  let ?w = "\<lparr>input_pdf = Some ?ps, stale_temp = None, is_dir = (=) ''output'',
    network_up = True\<rparr>"
  have h1: "''2023-07 BP.pdf'' \<noteq> []" by simp
  have h2: "input_pdf ?w = Some ?ps" by simp
  have h3: "?ps \<noteq> []" by simp
  have h4': "list_all (\<lambda>name. list_all (\<lambda>t. \<not> grep_qi name t) ?ps) names" by code_simp
  then have h4: "\<forall>name\<in>set names. \<forall>t\<in>set ?ps. \<not> grep_qi name t"
    unfolding list_all_iff .
  from no_match_no_file_success [OF h1 h2 h3 h4] h1 h3 h4' show ?thesis by (intro conjI) blast+
qed



end
